theory Spec2Isabelle
  imports Main "HOL-Library.Signed_Division"
begin

section \<open>Data model of the embedded cipher library\<close>

text \<open>
  The library works in place on a C string handed over as \<^verbatim>\<open>char *str\<close>.
  The store is modelled as the bytes found at each offset from \<^verbatim>\<open>str\<close>:
  \<open>m j\<close> is \<^verbatim>\<open>str[j]\<close>, an assignment \<^verbatim>\<open>str[j] = v\<close> is \<open>m(j := v)\<close>.
  Offsets are C \<^verbatim>\<open>int\<close>s, modelled as \<open>int\<close>; every value the code computes
  from a validated length stays far below the 32-bit range. The extent of the
  caller's array is not part of the store: an access past the terminator reads or
  writes the byte that lies there.
\<close>

type_synonym memory = "int \<Rightarrow> char"

abbreviation NUL :: char where
  "NUL \<equiv> CHR 0x00"

text \<open>\<^verbatim>\<open>cipher_status_t\<close> of cipher.h, with the numeric value of each enumerator.\<close>

datatype cipher_status_t =
    CIPHER_SUCCESS
  | CIPHER_ERROR_NULL_POINTER
  | CIPHER_ERROR_INVALID_KEY
  | CIPHER_ERROR_INVALID_LENGTH

fun status_value :: "cipher_status_t \<Rightarrow> int" where
  "status_value CIPHER_SUCCESS = 0"
| "status_value CIPHER_ERROR_NULL_POINTER = - 1"
| "status_value CIPHER_ERROR_INVALID_KEY = - 2"
| "status_value CIPHER_ERROR_INVALID_LENGTH = - 3"

definition CIPHER_MAX_INPUT_LEN :: int where
  "CIPHER_MAX_INPUT_LEN = 10000"

definition CIPHER_TABLE_SIZE :: nat where
  "CIPHER_TABLE_SIZE = 20"

text \<open>The table of cipher.c: each row is (plaintext symbol, ciphertext symbol).\<close>

definition SUBSTITUTION_TABLE :: "(char \<times> char) list" where
  "SUBSTITUTION_TABLE =
    [(CHR ''0'', CHR ''B''), (CHR ''1'', CHR '';''), (CHR ''2'', CHR ''C''), (CHR ''3'', CHR ''D''),
     (CHR ''4'', CHR '':''), (CHR ''5'', CHR ''F''), (CHR ''6'', CHR ''E''), (CHR ''7'', CHR ''9''),
     (CHR ''8'', CHR ''3''), (CHR ''9'', CHR ''8''), (CHR ''A'', CHR ''2''), (CHR ''B'', CHR ''4''),
     (CHR ''C'', CHR '',''), (CHR ''D'', CHR ''0''), (CHR ''E'', CHR ''=''), (CHR ''F'', CHR ''1''),
     (CHR '':'', CHR ''A''), (CHR '','', CHR ''7''), (CHR ''='', CHR ''5''), (CHR '';'', CHR ''6'')]"

section \<open>The C library functions the code calls\<close>

text \<open>
  \<^verbatim>\<open>strlen\<close> scans upwards from the pointer until it meets a zero byte; on a store
  without one the scan never returns, which is the value \<open>None\<close>.
\<close>

partial_function (option) strlen_from :: "memory \<Rightarrow> int \<Rightarrow> int option" where
  "strlen_from m i = (if m i = NUL then Some i else strlen_from m (i + 1))"

declare strlen_from.simps [code]

definition strlen :: "memory \<Rightarrow> int option" where
  "strlen m = strlen_from m 0"

text \<open>\<^verbatim>\<open>toupper\<close> in the "C" locale: the 26 letters a..z (97..122) lose 32, all else stays.\<close>

definition toupper :: "char \<Rightarrow> char" where
  "toupper c =
     (let n = (of_char c :: nat)
      in if 97 \<le> n \<and> n \<le> 122 then char_of (n - 32) else c)"

text \<open>The 26 small letters and, at the same places, their capitals.\<close>

definition lower_case :: string where
  "lower_case = ''abcdefghijklmnopqrstuvwxyz''"

definition upper_case :: string where
  "upper_case = ''ABCDEFGHIJKLMNOPQRSTUVWXYZ''"

section \<open>Validation\<close>

text \<open>
  \<^verbatim>\<open>validate_arg\<close>: the pointer is \<open>None\<close> for \<^verbatim>\<open>NULL\<close>. The three tests run in
  the order of the source; \<^verbatim>\<open>strlen\<close> is only called by the third.
\<close>

definition validate_arg :: "memory option \<Rightarrow> int \<Rightarrow> cipher_status_t option" where
  "validate_arg str key =
     (case str of
        None \<Rightarrow> Some CIPHER_ERROR_NULL_POINTER
      | Some m \<Rightarrow>
          if key \<le> 0 then Some CIPHER_ERROR_INVALID_KEY
          else (case strlen m of
                  None \<Rightarrow> None
                | Some n \<Rightarrow>
                    if n > CIPHER_MAX_INPUT_LEN then Some CIPHER_ERROR_INVALID_LENGTH
                    else Some CIPHER_SUCCESS))"

section \<open>Split-shift stage\<close>

text \<open>
  The bodies of the four loops of the shift stage exchange two neighbouring bytes
  through \<^verbatim>\<open>temp\<close>. The left loops run
  \<^verbatim>\<open>temp = str[j + 1]; str[j + 1] = str[j]; str[j] = temp;\<close>
  and the right loops
  \<^verbatim>\<open>temp = str[j - 1]; str[j - 1] = str[j]; str[j] = temp;\<close>
\<close>

definition swap_with_next :: "memory \<Rightarrow> int \<Rightarrow> memory" where
  "swap_with_next m j = (let temp = m (j + 1) in (m(j + 1 := m j))(j := temp))"

definition swap_with_previous :: "memory \<Rightarrow> int \<Rightarrow> memory" where
  "swap_with_previous m j = (let temp = m (j - 1) in (m(j - 1 := m j))(j := temp))"

text \<open>\<^verbatim>\<open>for (j = ...; j < hi; j++) { ... }\<close> of \<^verbatim>\<open>shift_left_once\<close>.\<close>

function sweep_up :: "int \<Rightarrow> int \<Rightarrow> memory \<Rightarrow> memory" where
  "sweep_up j hi m = (if j < hi then sweep_up (j + 1) hi (swap_with_next m j) else m)"
  by pat_completeness auto
termination
  by (relation "measure (\<lambda>(j, hi, m). nat (hi - j))") auto

text \<open>\<^verbatim>\<open>for (j = ...; j > lo; j--) { ... }\<close> of \<^verbatim>\<open>shift_right_once\<close>.\<close>

function sweep_down :: "int \<Rightarrow> int \<Rightarrow> memory \<Rightarrow> memory" where
  "sweep_down j lo m = (if j > lo then sweep_down (j - 1) lo (swap_with_previous m j) else m)"
  by pat_completeness auto
termination
  by (relation "measure (\<lambda>(j, lo, m). nat (j - lo))") auto

declare sweep_up.simps [simp del] sweep_down.simps [simp del]

text \<open>C's \<^verbatim>\<open>/\<close> on \<^verbatim>\<open>int\<close> truncates towards zero: \<open>sdiv\<close>.\<close>

definition shift_left_once :: "memory \<Rightarrow> int \<Rightarrow> memory" where
  "shift_left_once m len =
     (let mid = (len - 1) sdiv 2;
          m1 = sweep_up 0 mid m
      in sweep_up (mid + 1) (len - 1) m1)"

definition shift_right_once :: "memory \<Rightarrow> int \<Rightarrow> memory" where
  "shift_right_once m len =
     (let mid = (len - 1) sdiv 2;
          m1 = sweep_down (len - 1) mid m
      in sweep_down (mid + 1) 0 m1)"

section \<open>Substitution stage\<close>

text \<open>
  The inner loop over the table rows \<open>a = 0 .. CIPHER_TABLE_SIZE - 1\<close>: the first row
  whose compared column equals the byte decides, and \<^verbatim>\<open>break\<close> ends the scan.
\<close>

function scan_forward :: "nat \<Rightarrow> char \<Rightarrow> char" where
  "scan_forward a c =
     (if a < CIPHER_TABLE_SIZE
      then (if fst (SUBSTITUTION_TABLE ! a) = c then snd (SUBSTITUTION_TABLE ! a)
            else scan_forward (a + 1) c)
      else c)"
  by pat_completeness auto
termination
  by (relation "measure (\<lambda>(a, c). CIPHER_TABLE_SIZE - a)") auto

function scan_reverse :: "nat \<Rightarrow> char \<Rightarrow> char" where
  "scan_reverse a c =
     (if a < CIPHER_TABLE_SIZE
      then (if snd (SUBSTITUTION_TABLE ! a) = c then fst (SUBSTITUTION_TABLE ! a)
            else scan_reverse (a + 1) c)
      else c)"
  by pat_completeness auto
termination
  by (relation "measure (\<lambda>(a, c). CIPHER_TABLE_SIZE - a)") auto

declare scan_forward.simps [simp del] scan_reverse.simps [simp del]

text \<open>The outer loops: \<^verbatim>\<open>for (i = 0; i < len && str[i] != '\0'; i++)\<close>.\<close>

function forward_from :: "int \<Rightarrow> int \<Rightarrow> memory \<Rightarrow> memory" where
  "forward_from i len m =
     (if i < len \<and> m i \<noteq> NUL
      then forward_from (i + 1) len (m(i := scan_forward 0 (m i)))
      else m)"
  by pat_completeness auto
termination
  by (relation "measure (\<lambda>(i, len, m). nat (len - i))") auto

function reverse_from :: "int \<Rightarrow> int \<Rightarrow> memory \<Rightarrow> memory" where
  "reverse_from i len m =
     (if i < len \<and> m i \<noteq> NUL
      then reverse_from (i + 1) len (m(i := scan_reverse 0 (m i)))
      else m)"
  by pat_completeness auto
termination
  by (relation "measure (\<lambda>(i, len, m). nat (len - i))") auto

declare forward_from.simps [simp del] reverse_from.simps [simp del]

definition substitute_forward :: "memory \<Rightarrow> int \<Rightarrow> memory" where
  "substitute_forward m len = forward_from 0 len m"

definition substitute_reverse :: "memory \<Rightarrow> int \<Rightarrow> memory" where
  "substitute_reverse m len = reverse_from 0 len m"

section \<open>Public operations\<close>

text \<open>\<^verbatim>\<open>for (i = 0; i < key; i++) shift_left_once(str, len);\<close> and its right twin.\<close>

function shift_left_loop :: "int \<Rightarrow> int \<Rightarrow> memory \<Rightarrow> int \<Rightarrow> memory" where
  "shift_left_loop i key m len =
     (if i < key then shift_left_loop (i + 1) key (shift_left_once m len) len else m)"
  by pat_completeness auto
termination
  by (relation "measure (\<lambda>(i, key, m, len). nat (key - i))") auto

function shift_right_loop :: "int \<Rightarrow> int \<Rightarrow> memory \<Rightarrow> int \<Rightarrow> memory" where
  "shift_right_loop i key m len =
     (if i < key then shift_right_loop (i + 1) key (shift_right_once m len) len else m)"
  by pat_completeness auto
termination
  by (relation "measure (\<lambda>(i, key, m, len). nat (key - i))") auto

declare shift_left_loop.simps [simp del] shift_right_loop.simps [simp del]

text \<open>
  A call returns its status together with the pointer's store afterwards; the outer
  \<open>None\<close> is a call that never returns because \<^verbatim>\<open>strlen\<close> does not.
\<close>

definition cipher_encrypt ::
  "memory option \<Rightarrow> int \<Rightarrow> (cipher_status_t \<times> memory option) option" where
  "cipher_encrypt str key =
     (case validate_arg str key of
        None \<Rightarrow> None
      | Some status \<Rightarrow>
          if status \<noteq> CIPHER_SUCCESS then Some (status, str)
          else (case str of
                  None \<Rightarrow> Some (status, str)
                | Some m \<Rightarrow>
                    (case strlen m of
                       None \<Rightarrow> None
                     | Some len \<Rightarrow>
                         Some (CIPHER_SUCCESS,
                               Some (substitute_forward (shift_left_loop 0 key m len) len)))))"

definition cipher_decrypt ::
  "memory option \<Rightarrow> int \<Rightarrow> (cipher_status_t \<times> memory option) option" where
  "cipher_decrypt str key =
     (case validate_arg str key of
        None \<Rightarrow> None
      | Some status \<Rightarrow>
          if status \<noteq> CIPHER_SUCCESS then Some (status, str)
          else (case str of
                  None \<Rightarrow> Some (status, str)
                | Some m \<Rightarrow>
                    (case strlen m of
                       None \<Rightarrow> None
                     | Some len \<Rightarrow>
                         Some (CIPHER_SUCCESS,
                               Some (substitute_reverse (shift_right_loop 0 key m len) len)))))"

text \<open>\<^verbatim>\<open>while (*str != '\0') { *str = toupper(*str); str++; }\<close>\<close>

partial_function (option) upper_from :: "memory \<Rightarrow> int \<Rightarrow> memory option" where
  "upper_from m p = (if m p = NUL then Some m else upper_from (m(p := toupper (m p))) (p + 1))"

declare upper_from.simps [code]

definition cipher_to_uppercase :: "memory option \<Rightarrow> memory option option" where
  "cipher_to_uppercase str =
     (case str of
        None \<Rightarrow> Some None
      | Some m \<Rightarrow> map_option Some (upper_from m 0))"

text \<open>The store that holds the bytes of \<open>s\<close> from offset 0 on and zero bytes elsewhere.\<close>

definition store_of :: "string \<Rightarrow> memory" where
  "store_of s j = (if 0 \<le> j \<and> j < int (length s) then s ! nat j else NUL)"

text \<open>The \<open>n\<close> bytes of a store from offset \<open>lo\<close> on.\<close>

definition segment :: "memory \<Rightarrow> int \<Rightarrow> nat \<Rightarrow> string" where
  "segment m lo n = map (\<lambda>k. m (lo + int k)) [0..<n]"

text \<open>
  The caller of the round-trip tests: encrypt, then decrypt what was left with the
  same key; \<open>None\<close> unless both calls return \<open>CIPHER_SUCCESS\<close>.
\<close>

definition encrypt_then_decrypt :: "memory \<Rightarrow> int \<Rightarrow> memory option" where
  "encrypt_then_decrypt m key =
     (case cipher_encrypt (Some m) key of
        Some (CIPHER_SUCCESS, Some e) \<Rightarrow>
          (case cipher_decrypt (Some e) key of
             Some (CIPHER_SUCCESS, Some d) \<Rightarrow> Some d
           | _ \<Rightarrow> None)
      | _ \<Rightarrow> None)"

text \<open>
  The stage order the specification gives for decryption, built from the stages of
  the source: reverse substitution of the whole string first, then \<open>key\<close> right steps.
\<close>

definition decrypt_in_spec_order :: "memory \<Rightarrow> int \<Rightarrow> int \<Rightarrow> memory" where
  "decrypt_in_spec_order m key len = shift_right_loop 0 key (substitute_reverse m len) len"

text \<open>
  The offset whose byte stands at offset \<open>j\<close> after \<open>k\<close> left steps on a string of
  \<open>len\<close> bytes: the lower \<open>(len - 1) div 2 + 1\<close> offsets turn among themselves, and so
  do the remaining upper ones.
\<close>

definition turned :: "int \<Rightarrow> int \<Rightarrow> int \<Rightarrow> int" where
  "turned len k j =
     (let a = (len - 1) div 2 + 1; b = len - a
      in if 0 \<le> j \<and> j < a then (j + k) mod a
         else if a \<le> j \<and> j < len then a + (j - a + k) mod b
         else j)"

section \<open>Running the model on a given store\<close>

lemmas run_simps =
  strlen_def strlen_from.simps store_of_def segment_def upt_rec
  cipher_encrypt_def cipher_decrypt_def validate_arg_def CIPHER_MAX_INPUT_LEN_def
  shift_left_loop.simps shift_right_loop.simps shift_left_once_def shift_right_once_def
  sweep_up.simps sweep_down.simps swap_with_next_def swap_with_previous_def
  signed_divide_int_def Let_def
  substitute_forward_def substitute_reverse_def forward_from.simps reverse_from.simps
  scan_forward.simps scan_reverse.simps SUBSTITUTION_TABLE_def CIPHER_TABLE_SIZE_def
  encrypt_then_decrypt_def decrypt_in_spec_order_def

section \<open>Zero-terminated strings in the store\<close>

text \<open>
  \<open>strlen m = Some n\<close> says exactly that offset \<open>n\<close> holds the first zero byte: the
  store holds a string of \<open>n\<close> characters.
\<close>

lemma strlen_from_found:
  "i \<le> n \<Longrightarrow> m n = NUL \<Longrightarrow> (\<And>j. i \<le> j \<Longrightarrow> j < n \<Longrightarrow> m j \<noteq> NUL) \<Longrightarrow> strlen_from m i = Some n"
proof (induction "nat (n - i)" arbitrary: i)
  case 0
  then have "i = n" by simp
  with 0 show ?case by (simp add: strlen_from.simps)
next
  case (Suc k)
  then have lt: "i < n" by linarith
  with Suc.prems have nz: "m i \<noteq> NUL" by simp
  have "strlen_from m (i + 1) = Some n"
    using Suc.hyps(2) Suc.prems lt by (intro Suc.hyps(1)) auto
  with nz show ?case by (subst strlen_from.simps) simp
qed

lemma strlen_from_SomeD:
  assumes "strlen_from m i = Some n"
  shows "i \<le> n \<and> m n = NUL \<and> (\<forall>j. i \<le> j \<and> j < n \<longrightarrow> m j \<noteq> NUL)"
proof (rule strlen_from.raw_induct
    [where P = "\<lambda>m i n. i \<le> n \<and> m n = NUL \<and> (\<forall>j. i \<le> j \<and> j < n \<longrightarrow> m j \<noteq> NUL)", OF _ assms])
  fix f :: "memory \<Rightarrow> int \<Rightarrow> int option" and m i n
  assume IH: "\<And>m i n. f m i = Some n \<Longrightarrow>
      i \<le> n \<and> m n = NUL \<and> (\<forall>j. i \<le> j \<and> j < n \<longrightarrow> m j \<noteq> NUL)"
    and eq: "(if m i = NUL then Some i else f m (i + 1)) = Some n"
  show "i \<le> n \<and> m n = NUL \<and> (\<forall>j. i \<le> j \<and> j < n \<longrightarrow> m j \<noteq> NUL)"
  proof (cases "m i = NUL")
    case True
    with eq show ?thesis by auto
  next
    case False
    with eq have "f m (i + 1) = Some n" by simp
    from IH[OF this] have *: "i + 1 \<le> n" "m n = NUL" "\<forall>j. i + 1 \<le> j \<and> j < n \<longrightarrow> m j \<noteq> NUL"
      by auto
    have "m j \<noteq> NUL" if "i \<le> j" "j < n" for j
      using that * False by (cases "j = i") auto
    with * show ?thesis by auto
  qed
qed

lemma strlen_iff:
  "strlen m = Some n \<longleftrightarrow> 0 \<le> n \<and> m n = NUL \<and> (\<forall>j. 0 \<le> j \<and> j < n \<longrightarrow> m j \<noteq> NUL)"
  unfolding strlen_def using strlen_from_SomeD[of m 0 n] strlen_from_found[of 0 n m] by blast

lemma store_of_strlen:
  "NUL \<notin> set s \<Longrightarrow> strlen (store_of s) = Some (int (length s))"
proof -
  have "s ! nat j \<noteq> NUL" if "NUL \<notin> set s" "0 \<le> j" "j < int (length s)" for j
  proof -
    from that have "nat j < length s" by linarith
    then have "s ! nat j \<in> set s" by (rule nth_mem)
    with that(1) show ?thesis by metis
  qed
  then show "NUL \<notin> set s \<Longrightarrow> strlen (store_of s) = Some (int (length s))"
    unfolding strlen_iff by (simp add: store_of_def)
qed

section \<open>Validation gate of the public operations\<close>

lemma cipher_encrypt_null: "cipher_encrypt None key = Some (CIPHER_ERROR_NULL_POINTER, None)"
  by (simp add: cipher_encrypt_def validate_arg_def)

lemma cipher_decrypt_null: "cipher_decrypt None key = Some (CIPHER_ERROR_NULL_POINTER, None)"
  by (simp add: cipher_decrypt_def validate_arg_def)

lemma cipher_encrypt_bad_key:
  "key \<le> 0 \<Longrightarrow> cipher_encrypt (Some m) key = Some (CIPHER_ERROR_INVALID_KEY, Some m)"
  by (simp add: cipher_encrypt_def validate_arg_def)

lemma cipher_decrypt_bad_key:
  "key \<le> 0 \<Longrightarrow> cipher_decrypt (Some m) key = Some (CIPHER_ERROR_INVALID_KEY, Some m)"
  by (simp add: cipher_decrypt_def validate_arg_def)

lemma cipher_encrypt_too_long:
  "0 < key \<Longrightarrow> strlen m = Some n \<Longrightarrow> 10000 < n \<Longrightarrow>
   cipher_encrypt (Some m) key = Some (CIPHER_ERROR_INVALID_LENGTH, Some m)"
  by (simp add: cipher_encrypt_def validate_arg_def CIPHER_MAX_INPUT_LEN_def)

lemma cipher_decrypt_too_long:
  "0 < key \<Longrightarrow> strlen m = Some n \<Longrightarrow> 10000 < n \<Longrightarrow>
   cipher_decrypt (Some m) key = Some (CIPHER_ERROR_INVALID_LENGTH, Some m)"
  by (simp add: cipher_decrypt_def validate_arg_def CIPHER_MAX_INPUT_LEN_def)

lemma cipher_encrypt_valid:
  "0 < key \<Longrightarrow> strlen m = Some n \<Longrightarrow> n \<le> 10000 \<Longrightarrow>
   cipher_encrypt (Some m) key =
     Some (CIPHER_SUCCESS, Some (substitute_forward (shift_left_loop 0 key m n) n))"
  by (simp add: cipher_encrypt_def validate_arg_def CIPHER_MAX_INPUT_LEN_def)

lemma cipher_decrypt_valid:
  "0 < key \<Longrightarrow> strlen m = Some n \<Longrightarrow> n \<le> 10000 \<Longrightarrow>
   cipher_decrypt (Some m) key =
     Some (CIPHER_SUCCESS, Some (substitute_reverse (shift_right_loop 0 key m n) n))"
  by (simp add: cipher_decrypt_def validate_arg_def CIPHER_MAX_INPUT_LEN_def)

text \<open>
  Claim C4. Both public operations validate in a fixed order. A null pointer gives
  \<open>CIPHER_ERROR_NULL_POINTER\<close> (-1) whatever the key; a non-null pointer with
  \<open>key \<le> 0\<close> gives \<open>CIPHER_ERROR_INVALID_KEY\<close> (-2) whatever the store holds, over-long
  or not; with \<open>key \<ge> 1\<close>, a string of more than 10000 characters gives
  \<open>CIPHER_ERROR_INVALID_LENGTH\<close> (-3), and a string of at most 10000 characters, so also
  of exactly 10000, makes the call return \<open>CIPHER_SUCCESS\<close> (0).
\<close>

theorem validation_precedence:
  "cipher_encrypt None key = Some (CIPHER_ERROR_NULL_POINTER, None) \<and>
   cipher_decrypt None key = Some (CIPHER_ERROR_NULL_POINTER, None) \<and>
   (key \<le> 0 \<longrightarrow>
      cipher_encrypt (Some m) key = Some (CIPHER_ERROR_INVALID_KEY, Some m) \<and>
      cipher_decrypt (Some m) key = Some (CIPHER_ERROR_INVALID_KEY, Some m)) \<and>
   (1 \<le> key \<and> strlen m = Some n \<and> 10000 < n \<longrightarrow>
      cipher_encrypt (Some m) key = Some (CIPHER_ERROR_INVALID_LENGTH, Some m) \<and>
      cipher_decrypt (Some m) key = Some (CIPHER_ERROR_INVALID_LENGTH, Some m)) \<and>
   (1 \<le> key \<and> strlen m = Some n \<and> n \<le> 10000 \<longrightarrow>
      (\<exists>m'. cipher_encrypt (Some m) key = Some (CIPHER_SUCCESS, Some m')) \<and>
      (\<exists>m'. cipher_decrypt (Some m) key = Some (CIPHER_SUCCESS, Some m'))) \<and>
   status_value CIPHER_SUCCESS = 0 \<and>
   status_value CIPHER_ERROR_NULL_POINTER = - 1 \<and>
   status_value CIPHER_ERROR_INVALID_KEY = - 2 \<and>
   status_value CIPHER_ERROR_INVALID_LENGTH = - 3"
  by (simp add: cipher_encrypt_null cipher_decrypt_null cipher_encrypt_bad_key
      cipher_decrypt_bad_key cipher_encrypt_too_long cipher_decrypt_too_long
      cipher_encrypt_valid cipher_decrypt_valid)

theorem validation_precedence_witness:
  "cipher_encrypt (Some (store_of ''ABCD'')) (- 3) =
     Some (CIPHER_ERROR_INVALID_KEY, Some (store_of ''ABCD'')) \<and>
   cipher_decrypt (Some (store_of (replicate 10001 (CHR ''A'')))) 0 =
     Some (CIPHER_ERROR_INVALID_KEY, Some (store_of (replicate 10001 (CHR ''A'')))) \<and>
   cipher_encrypt (Some (store_of (replicate 10001 (CHR ''A'')))) 1 =
     Some (CIPHER_ERROR_INVALID_LENGTH, Some (store_of (replicate 10001 (CHR ''A'')))) \<and>
   (\<exists>m'. cipher_encrypt (Some (store_of (replicate 10000 (CHR ''A'')))) 1 =
     Some (CIPHER_SUCCESS, Some m')) \<and>
   (\<exists>m'. cipher_decrypt (Some (store_of ''ABCD'')) 7 = Some (CIPHER_SUCCESS, Some m'))"
proof -
  have l4: "strlen (store_of ''ABCD'') = Some 4"
    by (simp add: strlen_def strlen_from.simps store_of_def)
  have l10000: "strlen (store_of (replicate 10000 (CHR ''A''))) = Some 10000"
    using store_of_strlen [of "replicate 10000 (CHR ''A'')"] by simp
  have l10001: "strlen (store_of (replicate 10001 (CHR ''A''))) = Some 10001"
    using store_of_strlen [of "replicate 10001 (CHR ''A'')"] by simp
  show ?thesis
    using validation_precedence [of "- 3" "store_of ''ABCD''" 4]
      validation_precedence [of 0 "store_of (replicate 10001 (CHR ''A''))" 10001]
      validation_precedence [of 1 "store_of (replicate 10001 (CHR ''A''))" 10001]
      validation_precedence [of 1 "store_of (replicate 10000 (CHR ''A''))" 10000]
      validation_precedence [of 7 "store_of ''ABCD''" 4]
      l4 l10000 l10001
    by simp
qed

text \<open>
  Claim C5. A call of \<open>cipher_encrypt\<close> or \<open>cipher_decrypt\<close> that returns a status other
  than \<open>CIPHER_SUCCESS\<close> hands the pointer's store back as it received it: every byte
  at every offset is the one present at the time of the call.
\<close>

theorem failed_call_leaves_buffer:
  "(cipher_encrypt str key = Some (status, str') \<and> status \<noteq> CIPHER_SUCCESS \<longrightarrow> str' = str) \<and>
   (cipher_decrypt str key = Some (status, str') \<and> status \<noteq> CIPHER_SUCCESS \<longrightarrow> str' = str)"
  by (auto simp: cipher_encrypt_def cipher_decrypt_def split: option.splits if_splits)

theorem failed_call_leaves_buffer_witness:
  "cipher_encrypt (Some (store_of ''ABCD'')) 0 =
     Some (CIPHER_ERROR_INVALID_KEY, Some (store_of ''ABCD'')) \<and>
   cipher_decrypt None 5 = Some (CIPHER_ERROR_NULL_POINTER, None)"
proof -
  obtain s where e: "cipher_encrypt (Some (store_of ''ABCD'')) 0 = Some (CIPHER_ERROR_INVALID_KEY, s)"
    by (simp add: cipher_encrypt_def validate_arg_def)
  obtain t where d: "cipher_decrypt None 5 = Some (CIPHER_ERROR_NULL_POINTER, t)"
    by (simp add: cipher_decrypt_def validate_arg_def)
  from failed_call_leaves_buffer [of "Some (store_of ''ABCD'')" 0 CIPHER_ERROR_INVALID_KEY s] e
  have "s = Some (store_of ''ABCD'')" by simp
  moreover from failed_call_leaves_buffer [of None 5 CIPHER_ERROR_NULL_POINTER t] d
  have "t = None" by simp
  ultimately show ?thesis using e d by simp
qed

section \<open>The substitution table and the two scans\<close>

lemma table_length: "length SUBSTITUTION_TABLE = CIPHER_TABLE_SIZE"
  by (simp add: SUBSTITUTION_TABLE_def CIPHER_TABLE_SIZE_def)

text \<open>The row scan with \<^verbatim>\<open>break\<close> is a first-match lookup in the rows from \<open>a\<close> on.\<close>

lemma scan_forward_map_of:
  "scan_forward a c = (case map_of (drop a SUBSTITUTION_TABLE) c of None \<Rightarrow> c | Some q \<Rightarrow> q)"
proof (induction a c rule: scan_forward.induct)
  case (1 a c)
  show ?case
  proof (cases "a < CIPHER_TABLE_SIZE")
    case True
    then have d: "drop a SUBSTITUTION_TABLE = SUBSTITUTION_TABLE ! a # drop (a + 1) SUBSTITUTION_TABLE"
      by (simp add: Cons_nth_drop_Suc table_length)
    show ?thesis
      using 1 True by (subst scan_forward.simps, subst d) (cases "SUBSTITUTION_TABLE ! a", simp)
  next
    case False
    then show ?thesis
      by (subst scan_forward.simps) (simp add: table_length)
  qed
qed

lemma scan_reverse_map_of:
  "scan_reverse a c =
     (case map_of (map (\<lambda>(p, q). (q, p)) (drop a SUBSTITUTION_TABLE)) c of None \<Rightarrow> c | Some p \<Rightarrow> p)"
proof (induction a c rule: scan_reverse.induct)
  case (1 a c)
  show ?case
  proof (cases "a < CIPHER_TABLE_SIZE")
    case True
    then have d: "drop a SUBSTITUTION_TABLE = SUBSTITUTION_TABLE ! a # drop (a + 1) SUBSTITUTION_TABLE"
      by (simp add: Cons_nth_drop_Suc table_length)
    show ?thesis
      using 1 True by (subst scan_reverse.simps, subst d) (cases "SUBSTITUTION_TABLE ! a", simp)
  next
    case False
    then show ?thesis
      by (subst scan_reverse.simps) (simp add: table_length)
  qed
qed

lemma scan_reverse_forward: "scan_reverse 0 (scan_forward 0 c) = c"
  by (simp add: scan_forward_map_of scan_reverse_map_of SUBSTITUTION_TABLE_def)

lemma scan_forward_reverse: "scan_forward 0 (scan_reverse 0 c) = c"
  by (simp add: scan_forward_map_of scan_reverse_map_of SUBSTITUTION_TABLE_def)

lemma scan_forward_NUL: "scan_forward 0 c = NUL \<longleftrightarrow> c = NUL"
  by (simp add: scan_forward_map_of SUBSTITUTION_TABLE_def)

lemma scan_reverse_NUL: "scan_reverse 0 c = NUL \<longleftrightarrow> c = NUL"
  by (simp add: scan_reverse_map_of SUBSTITUTION_TABLE_def)

lemma scan_forward_changes:
  "c \<in> fst ` set SUBSTITUTION_TABLE \<Longrightarrow> scan_forward 0 c \<noteq> c"
  by (auto simp add: scan_forward_map_of SUBSTITUTION_TABLE_def)

lemma scan_forward_passes:
  "c \<notin> fst ` set SUBSTITUTION_TABLE \<Longrightarrow> scan_forward 0 c = c"
  by (auto simp add: scan_forward_map_of SUBSTITUTION_TABLE_def)

text \<open>
  What the outer loop leaves at each offset: the bytes from \<open>i\<close> up to the first zero
  byte or \<open>len\<close>, whichever comes first, are replaced by their scan result.
\<close>

lemma forward_from_apply:
  "forward_from i len m j =
     (if i \<le> j \<and> j < len \<and> (\<forall>k. i \<le> k \<and> k \<le> j \<longrightarrow> m k \<noteq> NUL)
      then scan_forward 0 (m j) else m j)"
proof (induction i len m arbitrary: j rule: forward_from.induct)
  case (1 i len m)
  show ?case
  proof (cases "i < len \<and> m i \<noteq> NUL")
    case True
    let ?m' = "m(i := scan_forward 0 (m i))"
    have run: "(\<forall>k. i + 1 \<le> k \<and> k \<le> j \<longrightarrow> ?m' k \<noteq> NUL) \<longleftrightarrow>
               (\<forall>k. i \<le> k \<and> k \<le> j \<longrightarrow> m k \<noteq> NUL)" if "i < j"
    proof
      assume a: "\<forall>k. i + 1 \<le> k \<and> k \<le> j \<longrightarrow> ?m' k \<noteq> NUL"
      show "\<forall>k. i \<le> k \<and> k \<le> j \<longrightarrow> m k \<noteq> NUL"
      proof (intro allI impI)
        fix k assume "i \<le> k \<and> k \<le> j"
        then show "m k \<noteq> NUL" using a [rule_format, of k] True by (cases "k = i") auto
      qed
    next
      assume a: "\<forall>k. i \<le> k \<and> k \<le> j \<longrightarrow> m k \<noteq> NUL"
      show "\<forall>k. i + 1 \<le> k \<and> k \<le> j \<longrightarrow> ?m' k \<noteq> NUL"
        using a by auto
    qed
    have "forward_from i len m j = forward_from (i + 1) len ?m' j"
      using True by (subst forward_from.simps) simp
    also have "\<dots> = (if i + 1 \<le> j \<and> j < len \<and> (\<forall>k. i + 1 \<le> k \<and> k \<le> j \<longrightarrow> ?m' k \<noteq> NUL)
                      then scan_forward 0 (?m' j) else ?m' j)"
      using True by (intro "1.IH") auto
    also have "\<dots> = (if i \<le> j \<and> j < len \<and> (\<forall>k. i \<le> k \<and> k \<le> j \<longrightarrow> m k \<noteq> NUL)
                      then scan_forward 0 (m j) else m j)"
    proof (cases "i < j")
      case ij: True
      then show ?thesis using run [OF ij] by auto
    next
      case False
      then consider "j = i" | "j < i" by linarith
      then show ?thesis
      proof cases
        case 1
        then show ?thesis using True by auto
      next
        case 2
        then show ?thesis by auto
      qed
    qed
    finally show ?thesis .
  next
    case False
    then have "forward_from i len m j = m j"
      by (subst forward_from.simps) auto
    moreover have "\<not> (i \<le> j \<and> j < len \<and> (\<forall>k. i \<le> k \<and> k \<le> j \<longrightarrow> m k \<noteq> NUL))"
      using False by (metis order.strict_trans1 order_refl less_le_not_le linorder_not_less)
    ultimately show ?thesis by (simp only: if_False)
  qed
qed

lemma reverse_from_apply:
  "reverse_from i len m j =
     (if i \<le> j \<and> j < len \<and> (\<forall>k. i \<le> k \<and> k \<le> j \<longrightarrow> m k \<noteq> NUL)
      then scan_reverse 0 (m j) else m j)"
proof (induction i len m arbitrary: j rule: reverse_from.induct)
  case (1 i len m)
  show ?case
  proof (cases "i < len \<and> m i \<noteq> NUL")
    case True
    let ?m' = "m(i := scan_reverse 0 (m i))"
    have run: "(\<forall>k. i + 1 \<le> k \<and> k \<le> j \<longrightarrow> ?m' k \<noteq> NUL) \<longleftrightarrow>
               (\<forall>k. i \<le> k \<and> k \<le> j \<longrightarrow> m k \<noteq> NUL)" if "i < j"
    proof
      assume a: "\<forall>k. i + 1 \<le> k \<and> k \<le> j \<longrightarrow> ?m' k \<noteq> NUL"
      show "\<forall>k. i \<le> k \<and> k \<le> j \<longrightarrow> m k \<noteq> NUL"
      proof (intro allI impI)
        fix k assume "i \<le> k \<and> k \<le> j"
        then show "m k \<noteq> NUL" using a [rule_format, of k] True by (cases "k = i") auto
      qed
    next
      assume a: "\<forall>k. i \<le> k \<and> k \<le> j \<longrightarrow> m k \<noteq> NUL"
      show "\<forall>k. i + 1 \<le> k \<and> k \<le> j \<longrightarrow> ?m' k \<noteq> NUL"
        using a by auto
    qed
    have "reverse_from i len m j = reverse_from (i + 1) len ?m' j"
      using True by (subst reverse_from.simps) simp
    also have "\<dots> = (if i + 1 \<le> j \<and> j < len \<and> (\<forall>k. i + 1 \<le> k \<and> k \<le> j \<longrightarrow> ?m' k \<noteq> NUL)
                      then scan_reverse 0 (?m' j) else ?m' j)"
      using True by (intro "1.IH") auto
    also have "\<dots> = (if i \<le> j \<and> j < len \<and> (\<forall>k. i \<le> k \<and> k \<le> j \<longrightarrow> m k \<noteq> NUL)
                      then scan_reverse 0 (m j) else m j)"
    proof (cases "i < j")
      case ij: True
      then show ?thesis using run [OF ij] by auto
    next
      case False
      then consider "j = i" | "j < i" by linarith
      then show ?thesis
      proof cases
        case 1
        then show ?thesis using True by auto
      next
        case 2
        then show ?thesis by auto
      qed
    qed
    finally show ?thesis .
  next
    case False
    then have "reverse_from i len m j = m j"
      by (subst reverse_from.simps) auto
    moreover have "\<not> (i \<le> j \<and> j < len \<and> (\<forall>k. i \<le> k \<and> k \<le> j \<longrightarrow> m k \<noteq> NUL))"
      using False by (metis order.strict_trans1 order_refl less_le_not_le linorder_not_less)
    ultimately show ?thesis by (simp only: if_False)
  qed
qed

lemma substitute_forward_apply:
  "substitute_forward m len j =
     (if 0 \<le> j \<and> j < len \<and> (\<forall>k. 0 \<le> k \<and> k \<le> j \<longrightarrow> m k \<noteq> NUL)
      then scan_forward 0 (m j) else m j)"
  by (simp only: substitute_forward_def forward_from_apply)

lemma substitute_reverse_apply:
  "substitute_reverse m len j =
     (if 0 \<le> j \<and> j < len \<and> (\<forall>k. 0 \<le> k \<and> k \<le> j \<longrightarrow> m k \<noteq> NUL)
      then scan_reverse 0 (m j) else m j)"
  by (simp only: substitute_reverse_def reverse_from_apply)

lemma substitute_forward_NUL: "substitute_forward m len k = NUL \<longleftrightarrow> m k = NUL"
  by (simp add: substitute_forward_apply scan_forward_NUL)

lemma substitute_reverse_NUL: "substitute_reverse m len k = NUL \<longleftrightarrow> m k = NUL"
  by (simp add: substitute_reverse_apply scan_reverse_NUL)

lemma substitute_reverse_forward:
  "substitute_reverse (substitute_forward m len) len = m"
proof
  fix j
  define run where "run \<longleftrightarrow> 0 \<le> j \<and> j < len \<and> (\<forall>k. 0 \<le> k \<and> k \<le> j \<longrightarrow> m k \<noteq> NUL)"
  have inner: "substitute_forward m len j = (if run then scan_forward 0 (m j) else m j)"
    unfolding run_def by (rule substitute_forward_apply)
  have "substitute_reverse (substitute_forward m len) len j =
          (if run then scan_reverse 0 (substitute_forward m len j) else substitute_forward m len j)"
    unfolding run_def
    by (simp only: substitute_reverse_apply [of "substitute_forward m len"] substitute_forward_NUL)
  with inner show "substitute_reverse (substitute_forward m len) len j = m j"
    by (cases run) (simp_all add: scan_reverse_forward)
qed

lemma substitute_forward_reverse:
  "substitute_forward (substitute_reverse m len) len = m"
proof
  fix j
  define run where "run \<longleftrightarrow> 0 \<le> j \<and> j < len \<and> (\<forall>k. 0 \<le> k \<and> k \<le> j \<longrightarrow> m k \<noteq> NUL)"
  have inner: "substitute_reverse m len j = (if run then scan_reverse 0 (m j) else m j)"
    unfolding run_def by (rule substitute_reverse_apply)
  have "substitute_forward (substitute_reverse m len) len j =
          (if run then scan_forward 0 (substitute_reverse m len j) else substitute_reverse m len j)"
    unfolding run_def
    by (simp only: substitute_forward_apply [of "substitute_reverse m len"] substitute_reverse_NUL)
  with inner show "substitute_forward (substitute_reverse m len) len j = m j"
    by (cases run) (simp_all add: scan_forward_reverse)
qed

text \<open>
  Claim C7. The table has 20 rows, its 20 plaintext symbols are pairwise distinct and
  so are its 20 ciphertext symbols; on every store and for every length argument,
  reverse substitution undoes forward substitution and forward substitution undoes
  reverse substitution.
\<close>

theorem substitution_is_invertible:
  "length SUBSTITUTION_TABLE = 20 \<and>
   distinct (map fst SUBSTITUTION_TABLE) \<and>
   distinct (map snd SUBSTITUTION_TABLE) \<and>
   substitute_reverse (substitute_forward m len) len = m \<and>
   substitute_forward (substitute_reverse m len) len = m"
  by (simp add: substitute_reverse_forward substitute_forward_reverse)
     (simp add: SUBSTITUTION_TABLE_def)

section \<open>Case normalizer\<close>

lemma toupper_lower_case: "map toupper lower_case = upper_case"
  by (simp add: lower_case_def upper_case_def toupper_def char_of_eq_iff take_bit_eq_mod)

lemma toupper_letter:
  "c \<in> set lower_case \<Longrightarrow> map_of (zip lower_case upper_case) c = Some (toupper c)"
  by (simp add: toupper_lower_case [symmetric] map_of_zip_map)

lemma lower_case_codes: "map char_of [97..<123 :: nat] = lower_case"
  by (simp add: lower_case_def upt_rec char_of_eq_iff take_bit_eq_mod)

lemma toupper_other:
  assumes "c \<notin> set lower_case"
  shows "toupper c = c"
proof -
  have "\<not> (97 \<le> (of_char c :: nat) \<and> (of_char c :: nat) \<le> 122)"
  proof
    assume "97 \<le> (of_char c :: nat) \<and> (of_char c :: nat) \<le> 122"
    then have "97 \<le> (of_char c :: nat) \<and> (of_char c :: nat) < 123" by linarith
    then have "(of_char c :: nat) \<in> set [97..<123]"
      by (simp only: set_upt atLeastLessThan_iff)
    then have "char_of (of_char c :: nat) \<in> set (map char_of [97..<123 :: nat])"
      by (simp only: set_map image_eqI)
    then have "c \<in> set lower_case" by (simp only: lower_case_codes char_of_char)
    with assms show False by simp
  qed
  then show ?thesis unfolding toupper_def Let_def by (simp only: if_False)
qed

lemma toupper_NUL: "toupper c = NUL \<longleftrightarrow> c = NUL"
proof (cases "c \<in> set lower_case")
  case True
  then have "toupper c \<in> set (map toupper lower_case)" by simp
  then have "toupper c \<in> set upper_case" by (simp only: toupper_lower_case)
  then have "toupper c \<noteq> NUL" by (auto simp: upper_case_def)
  moreover from True have "c \<noteq> NUL" by (auto simp: lower_case_def)
  ultimately show ?thesis by simp
next
  case False
  then show ?thesis by (simp add: toupper_other)
qed

lemma upper_from_found:
  "i \<le> n \<Longrightarrow> m n = NUL \<Longrightarrow> (\<And>j. i \<le> j \<Longrightarrow> j < n \<Longrightarrow> m j \<noteq> NUL) \<Longrightarrow>
   upper_from m i = Some (\<lambda>j. if i \<le> j \<and> j < n then toupper (m j) else m j)"
proof (induction "nat (n - i)" arbitrary: i m)
  case 0
  then have "i = n" by simp
  with 0 show ?case by (subst upper_from.simps) (auto simp add: fun_eq_iff)
next
  case (Suc k)
  then have lt: "i < n" by linarith
  with Suc.prems have nz: "m i \<noteq> NUL" by simp
  let ?m' = "m(i := toupper (m i))"
  have "upper_from ?m' (i + 1) =
          Some (\<lambda>j. if i + 1 \<le> j \<and> j < n then toupper (?m' j) else ?m' j)"
    using Suc.hyps(2) Suc.prems lt by (intro Suc.hyps(1)) auto
  moreover have "(\<lambda>j. if i + 1 \<le> j \<and> j < n then toupper (?m' j) else ?m' j) =
                 (\<lambda>j. if i \<le> j \<and> j < n then toupper (m j) else m j)"
    using lt by (auto simp: fun_eq_iff)
  ultimately show ?case using nz by (subst upper_from.simps) simp
qed

text \<open>
  Claim C10. Given the null pointer, \<open>cipher_to_uppercase\<close> returns at once and nothing
  is written. Given a string of \<open>n\<close> characters, it returns; each of the \<open>n\<close> characters
  that is one of the letters a..z has become the capital at the same place of the
  alphabet; every other byte of the store, digits, punctuation and bytes above 127
  among them, is as before; and the string still has \<open>n\<close> characters.
\<close>

theorem to_uppercase_spec:
  "cipher_to_uppercase None = Some None \<and>
   (strlen m = Some n \<longrightarrow>
      (\<exists>m'. cipher_to_uppercase (Some m) = Some (Some m') \<and>
            strlen m' = Some n \<and>
            (\<forall>j. 0 \<le> j \<and> j < n \<and> m j \<in> set lower_case \<longrightarrow>
                 map_of (zip lower_case upper_case) (m j) = Some (m' j)) \<and>
            (\<forall>j. \<not> (0 \<le> j \<and> j < n \<and> m j \<in> set lower_case) \<longrightarrow> m' j = m j)))"
proof (intro conjI impI)
  show "cipher_to_uppercase None = Some None"
    by (simp add: cipher_to_uppercase_def)
next
  assume len: "strlen m = Some n"
  define m' where "m' = (\<lambda>j. if 0 \<le> j \<and> j < n then toupper (m j) else m j)"
  from len have n: "0 \<le> n" "m n = NUL" "\<And>j. 0 \<le> j \<Longrightarrow> j < n \<Longrightarrow> m j \<noteq> NUL"
    by (simp_all add: strlen_iff)
  then have "upper_from m 0 = Some m'"
    unfolding m'_def by (intro upper_from_found) auto
  then have call: "cipher_to_uppercase (Some m) = Some (Some m')"
    by (simp add: cipher_to_uppercase_def)
  have still: "strlen m' = Some n"
    using n by (simp add: strlen_iff m'_def toupper_NUL)
  have letters: "\<forall>j. 0 \<le> j \<and> j < n \<and> m j \<in> set lower_case \<longrightarrow>
      map_of (zip lower_case upper_case) (m j) = Some (m' j)"
    by (simp add: m'_def toupper_letter)
  have others: "\<forall>j. \<not> (0 \<le> j \<and> j < n \<and> m j \<in> set lower_case) \<longrightarrow> m' j = m j"
    by (auto simp: m'_def toupper_other)
  from call still letters others
  show "\<exists>m'. cipher_to_uppercase (Some m) = Some (Some m') \<and>
            strlen m' = Some n \<and>
            (\<forall>j. 0 \<le> j \<and> j < n \<and> m j \<in> set lower_case \<longrightarrow>
                 map_of (zip lower_case upper_case) (m j) = Some (m' j)) \<and>
            (\<forall>j. \<not> (0 \<le> j \<and> j < n \<and> m j \<in> set lower_case) \<longrightarrow> m' j = m j)"
    by blast
qed

theorem to_uppercase_spec_witness:
  "\<exists>m'. cipher_to_uppercase (Some (store_of ''ab1'')) = Some (Some m') \<and>
        strlen m' = Some 3 \<and> m' 0 = CHR ''A'' \<and> m' 1 = CHR ''B'' \<and> m' 2 = CHR ''1''"
proof -
  have len: "strlen (store_of ''ab1'') = Some 3"
    by (simp add: strlen_def strlen_from.simps store_of_def)
  with to_uppercase_spec [of "store_of ''ab1''" 3]
  obtain m' where call: "cipher_to_uppercase (Some (store_of ''ab1'')) = Some (Some m')"
    and still: "strlen m' = Some 3"
    and letters: "\<And>j. 0 \<le> j \<and> j < 3 \<and> store_of ''ab1'' j \<in> set lower_case \<Longrightarrow>
        map_of (zip lower_case upper_case) (store_of ''ab1'' j) = Some (m' j)"
    and others: "\<And>j. \<not> (0 \<le> j \<and> j < 3 \<and> store_of ''ab1'' j \<in> set lower_case) \<Longrightarrow>
        m' j = store_of ''ab1'' j"
    by blast
  have "m' 0 = CHR ''A''"
    using letters [of 0] by (simp add: store_of_def lower_case_def upper_case_def)
  moreover have "m' 1 = CHR ''B''"
    using letters [of 1] by (simp add: store_of_def lower_case_def upper_case_def)
  moreover have "m' 2 = CHR ''1''"
    using others [of 2] by (simp add: store_of_def lower_case_def)
  ultimately show ?thesis using call still by blast
qed

section \<open>The four sweeps of the shift stage\<close>

lemma sweep_up_done: "hi \<le> j \<Longrightarrow> sweep_up j hi m = m"
  by (subst sweep_up.simps) simp

lemma sweep_down_done: "j \<le> lo \<Longrightarrow> sweep_down j lo m = m"
  by (subst sweep_down.simps) simp

text \<open>An upward sweep from \<open>lo\<close> to \<open>hi\<close> carries the byte at \<open>lo\<close> to \<open>hi\<close> and moves
  every byte in between one place down.\<close>

lemma sweep_up_apply:
  "lo \<le> hi \<Longrightarrow>
   sweep_up lo hi m j = (if lo \<le> j \<and> j < hi then m (j + 1) else if j = hi then m lo else m j)"
proof (induction lo hi m arbitrary: j rule: sweep_up.induct)
  case (1 lo hi m)
  show ?case
  proof (cases "lo < hi")
    case True
    have "sweep_up lo hi m j = sweep_up (lo + 1) hi (swap_with_next m lo) j"
      using True by (subst sweep_up.simps) simp
    also have "\<dots> = (if lo + 1 \<le> j \<and> j < hi then swap_with_next m lo (j + 1)
                      else if j = hi then swap_with_next m lo (lo + 1) else swap_with_next m lo j)"
      using True by (intro "1.IH") auto
    also have "\<dots> = (if lo \<le> j \<and> j < hi then m (j + 1) else if j = hi then m lo else m j)"
      using True by (auto simp: swap_with_next_def)
    finally show ?thesis .
  next
    case False
    with "1.prems" have "lo = hi" by simp
    then show ?thesis by (auto simp: sweep_up_done)
  qed
qed

text \<open>A downward sweep from \<open>hi\<close> to \<open>lo\<close> carries the byte at \<open>hi\<close> to \<open>lo\<close> and moves
  every byte in between one place up.\<close>

lemma sweep_down_apply:
  "lo \<le> hi \<Longrightarrow>
   sweep_down hi lo m j = (if lo < j \<and> j \<le> hi then m (j - 1) else if j = lo then m hi else m j)"
proof (induction hi lo m arbitrary: j rule: sweep_down.induct)
  case (1 hi lo m)
  show ?case
  proof (cases "lo < hi")
    case True
    have "sweep_down hi lo m j = sweep_down (hi - 1) lo (swap_with_previous m hi) j"
      using True by (subst sweep_down.simps) simp
    also have "\<dots> = (if lo < j \<and> j \<le> hi - 1 then swap_with_previous m hi (j - 1)
                      else if j = lo then swap_with_previous m hi (hi - 1)
                      else swap_with_previous m hi j)"
      using True by (intro "1.IH") auto
    also have "\<dots> = (if lo < j \<and> j \<le> hi then m (j - 1) else if j = lo then m hi else m j)"
      using True by (auto simp: swap_with_previous_def)
    finally show ?thesis .
  next
    case False
    with "1.prems" have "lo = hi" by simp
    then show ?thesis by (auto simp: sweep_down_done)
  qed
qed

text \<open>The midpoint of the source, \<^verbatim>\<open>(len - 1) / 2\<close> with C's truncation.\<close>

lemma mid_of_positive: "1 \<le> len \<Longrightarrow> (len - 1) sdiv 2 = (len - 1) div (2::int)"
  by (simp add: signed_divide_int_def sgn_if)

lemma mid_of_zero: "((0::int) - 1) sdiv 2 = 0"
  by (simp add: signed_divide_int_def)

text \<open>
  One left step on a string of \<open>len \<ge> 1\<close> bytes, \<open>mid = (len - 1) div 2\<close>: the bytes at
  \<open>0 .. mid\<close> rotate left by one place, and so do the bytes at \<open>mid + 1 .. len - 1\<close>.
\<close>

lemma shift_left_once_apply:
  assumes "1 \<le> len"
  shows "shift_left_once m len j =
           (if 0 \<le> j \<and> j < (len - 1) div 2 then m (j + 1)
            else if j = (len - 1) div 2 then m 0
            else if (len - 1) div 2 < j \<and> j < len - 1 then m (j + 1)
            else if j = len - 1 then m ((len - 1) div 2 + 1)
            else m j)"
proof -
  define mid where "mid = (len - 1) div 2"
  have mid: "0 \<le> mid" "mid \<le> len - 1" "len - 1 \<le> 2 * mid + 1"
    using assms by (auto simp: mid_def)
  have unfold: "shift_left_once m len = sweep_up (mid + 1) (len - 1) (sweep_up 0 mid m)"
    using assms by (simp add: shift_left_once_def mid_of_positive mid_def Let_def)
  show ?thesis
  proof (cases "mid + 1 \<le> len - 1")
    case True
    then show ?thesis
      unfolding unfold mid_def [symmetric] using mid
      by (simp add: sweep_up_apply)
  next
    case False
    then have "mid = len - 1" using mid by simp
    then show ?thesis
      unfolding unfold mid_def [symmetric] using mid
      by (simp add: sweep_up_apply sweep_up_done)
  qed
qed

text \<open>
  One right step on a string of \<open>len \<ge> 2\<close> bytes: the two sweeps overlap at
  \<open>mid\<close> and \<open>mid + 1\<close>, and together rotate the bytes at \<open>0 .. mid\<close> right by one place
  and the bytes at \<open>mid + 1 .. len - 1\<close> right by one place.
\<close>

lemma shift_right_once_apply:
  assumes "2 \<le> len"
  shows "shift_right_once m len j =
           (if j = 0 then m ((len - 1) div 2)
            else if 0 < j \<and> j \<le> (len - 1) div 2 then m (j - 1)
            else if j = (len - 1) div 2 + 1 then m (len - 1)
            else if (len - 1) div 2 + 1 < j \<and> j \<le> len - 1 then m (j - 1)
            else m j)"
proof -
  define mid where "mid = (len - 1) div 2"
  have mid: "0 \<le> mid" "mid + 1 \<le> len - 1"
    using assms by (auto simp: mid_def)
  have unfold: "shift_right_once m len = sweep_down (mid + 1) 0 (sweep_down (len - 1) mid m)"
    using assms by (simp add: shift_right_once_def mid_of_positive mid_def Let_def)
  show ?thesis
    unfolding unfold mid_def [symmetric] using mid
    by (simp add: sweep_down_apply)
qed

section \<open>Segments and single steps\<close>

lemma length_segment: "length (segment m lo n) = n"
  by (simp add: segment_def)

lemma segment_nth: "i < n \<Longrightarrow> segment m lo n ! i = m (lo + int i)"
  by (simp add: segment_def)

lemma rotate1_segment:
  assumes "\<And>i. i < n \<Longrightarrow> m' (lo + int i) = m (lo + int (Suc i mod n))"
  shows "segment m' lo n = rotate1 (segment m lo n)"
proof (rule nth_equalityI)
  show "length (segment m' lo n) = length (rotate1 (segment m lo n))"
    by (simp add: length_segment)
next
  fix i assume "i < length (segment m' lo n)"
  then have i: "i < n" by (simp add: length_segment)
  then have "Suc i mod n < n" by simp
  with i show "segment m' lo n ! i = rotate1 (segment m lo n) ! i"
    by (simp add: nth_rotate1 length_segment segment_nth assms)
qed

lemma rotate_back_segment:
  assumes "\<And>i. i < n \<Longrightarrow> m' (lo + int i) = m (lo + int ((i + n - 1) mod n))"
  shows "segment m' lo n = (if n = 0 then [] else last (segment m lo n) # butlast (segment m lo n))"
proof (cases "n = 0")
  case True
  then show ?thesis by (simp add: segment_def)
next
  case False
  have "segment m' lo n = last (segment m lo n) # butlast (segment m lo n)"
  proof (rule nth_equalityI)
    show "length (segment m' lo n) = length (last (segment m lo n) # butlast (segment m lo n))"
      using False by (simp add: length_segment)
  next
    fix i assume "i < length (segment m' lo n)"
    then have i: "i < n" by (simp add: length_segment)
    show "segment m' lo n ! i = (last (segment m lo n) # butlast (segment m lo n)) ! i"
    proof (cases i)
      case 0
      have "segment m lo n \<noteq> []" using False by (simp add: segment_def)
      then have "last (segment m lo n) = m (lo + int (n - 1))"
        using False by (simp add: last_conv_nth length_segment segment_nth)
      with 0 i show ?thesis using assms [of 0] by (simp add: segment_nth)
    next
      case (Suc k)
      with i have "(i + n - 1) mod n = k" by simp
      with Suc i show ?thesis
        using assms [of i] by (simp add: segment_nth nth_butlast length_segment)
    qed
  qed
  with False show ?thesis by simp
qed

lemma shift_right_once_cases:
  assumes "2 \<le> len" and "mid = (len - 1) div 2"
  shows "shift_right_once m len 0 = m mid"
    and "0 < j \<Longrightarrow> j \<le> mid \<Longrightarrow> shift_right_once m len j = m (j - 1)"
    and "shift_right_once m len (mid + 1) = m (len - 1)"
    and "mid + 1 < j \<Longrightarrow> j \<le> len - 1 \<Longrightarrow> shift_right_once m len j = m (j - 1)"
    and "j < 0 \<or> len \<le> j \<Longrightarrow> shift_right_once m len j = m j"
proof -
  have mid: "0 \<le> mid" "mid + 1 \<le> len - 1" using assms by auto
  note ap = shift_right_once_apply [OF assms(1), of m, folded assms(2)]
  show "shift_right_once m len 0 = m mid" by (simp add: ap)
  show "0 < j \<Longrightarrow> j \<le> mid \<Longrightarrow> shift_right_once m len j = m (j - 1)" by (simp add: ap)
  show "shift_right_once m len (mid + 1) = m (len - 1)" using mid by (simp add: ap)
  show "mid + 1 < j \<Longrightarrow> j \<le> len - 1 \<Longrightarrow> shift_right_once m len j = m (j - 1)"
    using mid by (simp add: ap)
  show "j < 0 \<or> len \<le> j \<Longrightarrow> shift_right_once m len j = m j"
    using mid by (auto simp: ap)
qed

lemma left_lower_segment:
  assumes "1 \<le> len" and "mid = (len - 1) div 2"
  shows "segment (shift_left_once m len) 0 (nat (mid + 1)) = rotate1 (segment m 0 (nat (mid + 1)))"
proof (rule rotate1_segment)
  fix i assume i: "i < nat (mid + 1)"
  have mid: "0 \<le> mid" using assms by simp
  show "shift_left_once m len (0 + int i) = m (0 + int (Suc i mod nat (mid + 1)))"
  proof (cases "int i < mid")
    case True
    then have "Suc i < nat (mid + 1)" by linarith
    then have "Suc i mod nat (mid + 1) = Suc i" by simp
    with True show ?thesis
      using assms by (simp add: shift_left_once_apply add.commute)
  next
    case False
    with i have e: "int i = mid" by linarith
    then have "Suc i = nat (mid + 1)" by linarith
    then have "Suc i mod nat (mid + 1) = 0" by simp
    with e show ?thesis
      using assms by (simp add: shift_left_once_apply)
  qed
qed

lemma left_upper_segment:
  assumes "1 \<le> len" and "mid = (len - 1) div 2"
  shows "segment (shift_left_once m len) (mid + 1) (nat (len - 1 - mid)) =
         rotate1 (segment m (mid + 1) (nat (len - 1 - mid)))"
proof (rule rotate1_segment)
  fix i assume i: "i < nat (len - 1 - mid)"
  have mid: "0 \<le> mid" using assms by simp
  show "shift_left_once m len (mid + 1 + int i) =
        m (mid + 1 + int (Suc i mod nat (len - 1 - mid)))"
  proof (cases "mid + 1 + int i < len - 1")
    case True
    then have "Suc i < nat (len - 1 - mid)" by linarith
    then have "Suc i mod nat (len - 1 - mid) = Suc i" by simp
    with True mid show ?thesis
      using assms by (simp add: shift_left_once_apply add.assoc)
  next
    case False
    with i have e: "mid + 1 + int i = len - 1" by linarith
    then have "Suc i = nat (len - 1 - mid)" by linarith
    then have "Suc i mod nat (len - 1 - mid) = 0" by simp
    with e mid show ?thesis
      using assms(1) unfolding assms(2) by (simp add: shift_left_once_apply)
  qed
qed

lemma left_frame:
  assumes "1 \<le> len" and "j < 0 \<or> len \<le> j"
  shows "shift_left_once m len j = m j"
proof -
  have "0 \<le> (len - 1) div 2" "(len - 1) div 2 \<le> len - 1" using assms(1) by auto
  with assms show ?thesis by (auto simp: shift_left_once_apply)
qed

lemma right_lower_segment:
  assumes "2 \<le> len" and "mid = (len - 1) div 2"
  shows "segment (shift_right_once m len) 0 (nat (mid + 1)) =
         last (segment m 0 (nat (mid + 1))) # butlast (segment m 0 (nat (mid + 1)))"
proof -
  have mid: "0 \<le> mid" using assms by simp
  have "shift_right_once m len (0 + int i) = m (0 + int ((i + nat (mid + 1) - 1) mod nat (mid + 1)))"
    if i: "i < nat (mid + 1)" for i
  proof (cases i)
    case 0
    have "(0 + nat (mid + 1) - 1) mod nat (mid + 1) = nat mid" using mid by (simp add: nat_add_distrib)
    with 0 mid show ?thesis
      using assms by (simp add: shift_right_once_apply)
  next
    case (Suc k)
    with i have "(i + nat (mid + 1) - 1) mod nat (mid + 1) = k" by simp
    moreover from Suc i have "0 < int i" "int i \<le> mid" "int i - 1 = int k" by linarith+
    ultimately show ?thesis
      using assms(1) unfolding assms(2) by (simp add: shift_right_once_apply)
  qed
  from rotate_back_segment [of "nat (mid + 1)" "shift_right_once m len" 0 m, OF this] mid
  show ?thesis by simp
qed

lemma right_upper_segment:
  assumes "2 \<le> len" and "mid = (len - 1) div 2"
  shows "segment (shift_right_once m len) (mid + 1) (nat (len - 1 - mid)) =
         last (segment m (mid + 1) (nat (len - 1 - mid))) #
         butlast (segment m (mid + 1) (nat (len - 1 - mid)))"
proof -
  have mid: "0 \<le> mid" "mid + 1 \<le> len - 1" using assms by auto
  define n where "n = nat (len - 1 - mid)"
  have n: "0 < n" "int n = len - 1 - mid" using mid by (auto simp: n_def)
  have "shift_right_once m len (mid + 1 + int i) = m (mid + 1 + int ((i + n - 1) mod n))"
    if i: "i < n" for i
  proof (cases i)
    case 0
    have "(i + n - 1) mod n = n - 1" using n 0 by simp
    moreover have "mid + 1 + int (n - 1) = len - 1" using n by linarith
    ultimately have "m (mid + 1 + int ((i + n - 1) mod n)) = m (len - 1)"
      by (simp only:)
    with 0 show ?thesis by (simp add: shift_right_once_cases(3) [OF assms])
  next
    case (Suc k)
    with i have "(i + n - 1) mod n = k" by simp
    moreover from Suc i n have "mid + 1 < mid + 1 + int i" "mid + 1 + int i \<le> len - 1"
      "mid + 1 + int i - 1 = mid + 1 + int k" by linarith+
    ultimately show ?thesis
      by (simp only: shift_right_once_cases(4) [OF assms])
  qed
  from rotate_back_segment [of n "shift_right_once m len" "mid + 1" m, OF this] n
  show ?thesis unfolding n_def by simp
qed

lemma right_frame:
  assumes "2 \<le> len" and "j < 0 \<or> len \<le> j"
  shows "shift_right_once m len j = m j"
proof -
  have "0 \<le> (len - 1) div 2" "(len - 1) div 2 + 1 \<le> len - 1" using assms(1) by auto
  with assms show ?thesis by (auto simp: shift_right_once_apply)
qed

text \<open>
  Claim C2, as the code has it. On a string of \<open>len \<ge> 1\<close> bytes with
  \<open>mid = (len - 1) div 2\<close>, one left step rotates the lower segment of offsets
  \<open>0 .. mid\<close>, the midpoint included, left by one place (first byte to the end) and
  the upper segment of offsets \<open>mid + 1 .. len - 1\<close> left by one place; for
  \<open>len \<ge> 2\<close> one right step rotates the same two segments right by one place (last
  byte to the front). Neither step changes a byte outside offsets \<open>0 .. len - 1\<close>.
\<close>

theorem rotation_step_segments:
  "1 \<le> len \<Longrightarrow> mid = (len - 1) div 2 \<Longrightarrow>
     segment (shift_left_once m len) 0 (nat (mid + 1)) =
       rotate1 (segment m 0 (nat (mid + 1))) \<and>
     segment (shift_left_once m len) (mid + 1) (nat (len - 1 - mid)) =
       rotate1 (segment m (mid + 1) (nat (len - 1 - mid))) \<and>
     (\<forall>j. j < 0 \<or> len \<le> j \<longrightarrow> shift_left_once m len j = m j) \<and>
     (2 \<le> len \<longrightarrow>
        segment (shift_right_once m len) 0 (nat (mid + 1)) =
          last (segment m 0 (nat (mid + 1))) # butlast (segment m 0 (nat (mid + 1))) \<and>
        segment (shift_right_once m len) (mid + 1) (nat (len - 1 - mid)) =
          last (segment m (mid + 1) (nat (len - 1 - mid))) #
          butlast (segment m (mid + 1) (nat (len - 1 - mid))) \<and>
        (\<forall>j. j < 0 \<or> len \<le> j \<longrightarrow> shift_right_once m len j = m j))"
  by (simp add: left_lower_segment left_upper_segment left_frame
      right_lower_segment right_upper_segment right_frame)

theorem rotation_step_segments_witness:
  "segment (shift_left_once (store_of ''ABCDEFG'') 7) 0 4 = ''BCDA'' \<and>
   segment (shift_left_once (store_of ''ABCDEFG'') 7) 4 3 = ''FGE'' \<and>
   segment (shift_right_once (store_of ''ABCDEFG'') 7) 0 4 = ''DABC'' \<and>
   segment (shift_right_once (store_of ''ABCDEFG'') 7) 4 3 = ''GEF''"
proof -
  have "(1::int) \<le> 7" "(3::int) = (7 - 1) div 2" "(2::int) \<le> 7" by simp_all
  from rotation_step_segments [OF this(1,2), of "store_of ''ABCDEFG''"] this(3)
  show ?thesis by (simp add: store_of_def segment_def upt_rec)
qed

text \<open>
  Claim C2 as stated fails on \<open>ABCDEF\<close>: the byte at the midpoint offset
  \<open>(6 - 1) div 2 = 2\<close> is \<open>C\<close> before a step, \<open>A\<close> after a left step and \<open>B\<close> after a
  right step.
\<close>

theorem midpoint_byte_moves:
  "store_of ''ABCDEF'' ((6 - 1) div 2) = CHR ''C'' \<and>
   shift_left_once (store_of ''ABCDEF'') 6 ((6 - 1) div 2) = CHR ''A'' \<and>
   shift_right_once (store_of ''ABCDEF'') 6 ((6 - 1) div 2) = CHR ''B'' \<and>
   shift_left_once (store_of ''ABCDEF'') 6 ((6 - 1) div 2) \<noteq> store_of ''ABCDEF'' ((6 - 1) div 2) \<and>
   shift_right_once (store_of ''ABCDEF'') 6 ((6 - 1) div 2) \<noteq> store_of ''ABCDEF'' ((6 - 1) div 2)"
  by (simp add: run_simps)

lemma shift_left_once_short: "0 \<le> len \<Longrightarrow> len \<le> 2 \<Longrightarrow> shift_left_once m len = m"
proof -
  assume "0 \<le> len" "len \<le> 2"
  then consider "len = 0" | "len = 1" | "len = 2" by linarith
  then show ?thesis
    by cases (simp_all add: shift_left_once_def signed_divide_int_def sweep_up_done)
qed

lemma shift_right_once_two: "shift_right_once m 2 = m"
  by (rule ext) (simp add: shift_right_once_apply)

text \<open>
  Claim C3, at the string \<open>A\<close> of length 1: the right step exchanges \<^verbatim>\<open>str[0]\<close> with
  the terminator at \<^verbatim>\<open>str[1]\<close>, so the store then holds the empty string followed by
  \<open>A\<close>. (The left step does leave strings of length 0, 1 and 2 alone, and the right
  step those of length 2: \<open>shift_left_once_short\<close>, \<open>shift_right_once_two\<close>.)
\<close>

theorem right_step_on_one_byte:
  "segment (store_of ''A'') 0 2 = [CHR ''A'', NUL] \<and>
   segment (shift_right_once (store_of ''A'') 1) 0 2 = [NUL, CHR ''A''] \<and>
   strlen (shift_right_once (store_of ''A'') 1) = Some 0"
  by (simp add: run_simps)

text \<open>
  Claim C1, at the string \<open>A\<close> with key 1: \<open>cipher_encrypt\<close> succeeds and leaves \<open>2\<close>;
  \<open>cipher_decrypt\<close> of that with the same key succeeds and leaves a zero byte at
  \<^verbatim>\<open>str[0]\<close> and \<open>2\<close> at \<^verbatim>\<open>str[1]\<close>, not the bytes \<open>A\<close>, zero that were encrypted.
\<close>

theorem roundtrip_of_one_byte:
  "cipher_encrypt (Some (store_of ''A'')) 1 = Some (CIPHER_SUCCESS, Some (store_of ''2'')) \<and>
   encrypt_then_decrypt (store_of ''A'') 1 \<noteq> None \<and>
   segment (the (encrypt_then_decrypt (store_of ''A'') 1)) 0 2 = [NUL, CHR ''2''] \<and>
   segment (store_of ''A'') 0 2 = [CHR ''A'', NUL]"
  by (simp add: run_simps fun_eq_iff)

text \<open>
  Claim C8, at the string \<open>2\<close> with key 1: \<open>cipher_decrypt\<close> shifts first, which
  puts the terminator at \<^verbatim>\<open>str[0]\<close>, so its substitution loop stops at once and
  \<^verbatim>\<open>str[1]\<close> keeps \<open>2\<close>; substituting first and shifting afterwards leaves \<open>A\<close> there.
\<close>

theorem decrypt_order_on_one_byte:
  "cipher_decrypt (Some (store_of ''2'')) 1 \<noteq> None \<and>
   fst (the (cipher_decrypt (Some (store_of ''2'')) 1)) = CIPHER_SUCCESS \<and>
   segment (the (snd (the (cipher_decrypt (Some (store_of ''2'')) 1)))) 0 2 = [NUL, CHR ''2''] \<and>
   segment (decrypt_in_spec_order (store_of ''2'') 1 1) 0 2 = [NUL, CHR ''A'']"
  by (simp add: run_simps)

section \<open>Repeated steps\<close>

lemma turned_outside: "j < 0 \<or> len \<le> j \<Longrightarrow> 1 \<le> len \<Longrightarrow> turned len k j = j"
  by (auto simp: turned_def Let_def)

lemma turned_lower:
  "1 \<le> len \<Longrightarrow> 0 \<le> j \<Longrightarrow> j < (len - 1) div 2 + 1 \<Longrightarrow>
   turned len k j = (j + k) mod ((len - 1) div 2 + 1)"
  by (simp add: turned_def Let_def)

lemma turned_upper:
  "1 \<le> len \<Longrightarrow> (len - 1) div 2 + 1 \<le> j \<Longrightarrow> j < len \<Longrightarrow>
   turned len k j =
     (len - 1) div 2 + 1 + (j - ((len - 1) div 2 + 1) + k) mod (len - ((len - 1) div 2 + 1))"
  by (simp add: turned_def Let_def)

lemma turned_lower_range:
  assumes "1 \<le> len" "0 \<le> j" "j < (len - 1) div 2 + 1"
  shows "0 \<le> turned len k j \<and> turned len k j < (len - 1) div 2 + 1"
proof -
  define a where "a = (len - 1) div 2 + 1"
  have "0 < a" using assms(1) by (simp add: a_def)
  then have "0 \<le> (j + k) mod a \<and> (j + k) mod a < a"
    by (simp only: pos_mod_sign pos_mod_bound)
  moreover have "turned len k j = (j + k) mod a"
    using assms by (simp only: turned_lower a_def)
  ultimately show ?thesis by (simp only: a_def)
qed

lemma turned_upper_range:
  assumes "1 \<le> len" "(len - 1) div 2 + 1 \<le> j" "j < len"
  shows "(len - 1) div 2 + 1 \<le> turned len k j \<and> turned len k j < len"
proof -
  define a where "a = (len - 1) div 2 + 1"
  define b where "b = len - a"
  have "0 < b" using assms by (simp add: a_def b_def)
  then have "0 \<le> (j - a + k) mod b \<and> (j - a + k) mod b < b"
    by (simp only: pos_mod_sign pos_mod_bound)
  moreover have "turned len k j = a + (j - a + k) mod b"
    using assms by (simp only: turned_upper a_def b_def)
  ultimately have "a \<le> turned len k j \<and> turned len k j < len"
    by (simp add: b_def)
  then show ?thesis by (simp only: a_def)
qed

lemma turned_range:
  assumes "1 \<le> len" "0 \<le> j" "j < len"
  shows "0 \<le> turned len k j \<and> turned len k j < len"
proof (cases "j < (len - 1) div 2 + 1")
  case True
  have "(len - 1) div 2 + 1 \<le> len" using assms(1) by linarith
  with turned_lower_range [OF assms(1,2) True, of k] show ?thesis by linarith
next
  case False
  have "0 \<le> (len - 1) div 2 + 1" using assms(1) by simp
  with turned_upper_range [of len j k] False assms show ?thesis by linarith
qed

lemma turned_zero: "1 \<le> len \<Longrightarrow> turned len 0 j = j"
  by (auto simp: turned_def Let_def)

lemma turned_turned:
  assumes "1 \<le> len"
  shows "turned len k (turned len k' j) = turned len (k + k') j"
proof -
  define a where "a = (len - 1) div 2 + 1"
  define b where "b = len - a"
  consider "j < 0 \<or> len \<le> j" | "0 \<le> j \<and> j < a" | "a \<le> j \<and> j < len" by linarith
  then show ?thesis
  proof cases
    case 1
    with assms show ?thesis by (simp add: turned_outside)
  next
    case 2
    then have j: "0 \<le> j" "j < (len - 1) div 2 + 1" by (simp_all add: a_def)
    have inner: "turned len k' j = (j + k') mod a"
      using assms j by (simp only: turned_lower a_def)
    have "0 \<le> turned len k' j" "turned len k' j < (len - 1) div 2 + 1"
      using turned_lower_range [OF assms j, of k'] by simp_all
    then have "turned len k (turned len k' j) = (turned len k' j + k) mod a"
      using assms by (simp only: turned_lower a_def)
    also have "\<dots> = (j + (k + k')) mod a"
      unfolding inner by (simp add: mod_simps ac_simps)
    also have "\<dots> = turned len (k + k') j"
      using assms j by (simp only: turned_lower a_def)
    finally show ?thesis .
  next
    case 3
    then have j: "(len - 1) div 2 + 1 \<le> j" "j < len" by (simp_all add: a_def)
    have inner: "turned len k' j = a + (j - a + k') mod b"
      using assms j by (simp only: turned_upper a_def b_def)
    have "(len - 1) div 2 + 1 \<le> turned len k' j" "turned len k' j < len"
      using turned_upper_range [OF assms j, of k'] by simp_all
    then have "turned len k (turned len k' j) = a + (turned len k' j - a + k) mod b"
      using assms by (simp only: turned_upper a_def b_def)
    also have "\<dots> = a + (j - a + (k + k')) mod b"
      unfolding inner by (simp add: mod_simps ac_simps)
    also have "\<dots> = turned len (k + k') j"
      using assms j by (simp only: turned_upper a_def b_def)
    finally show ?thesis .
  qed
qed

lemma shift_left_once_turned:
  assumes "1 \<le> len"
  shows "shift_left_once m len j = m (turned len 1 j)"
proof -
  define mid where "mid = (len - 1) div 2"
  have mid: "0 \<le> mid" "mid \<le> len - 1" using assms by (auto simp: mid_def)
  note ap = shift_left_once_apply [OF assms, of m, folded mid_def]
  consider "j < 0 \<or> len \<le> j" | "0 \<le> j \<and> j < mid" | "j = mid" | "mid < j \<and> j < len - 1"
    | "mid < j \<and> j = len - 1" by linarith
  then show ?thesis
  proof cases
    case 1
    with mid assms show ?thesis by (auto simp: ap turned_outside)
  next
    case 2
    then have "(j + 1) mod (mid + 1) = j + 1" by simp
    with 2 assms show ?thesis by (simp add: ap turned_lower mid_def [symmetric])
  next
    case 3
    then have "(j + 1) mod (mid + 1) = 0" by simp
    with 3 mid assms show ?thesis by (simp add: ap turned_lower mid_def [symmetric])
  next
    case 4
    then have "(j - (mid + 1) + 1) mod (len - (mid + 1)) = j - (mid + 1) + 1"
      using mid by simp
    with 4 mid assms show ?thesis
      by (simp add: ap turned_upper mid_def [symmetric] add.commute)
  next
    case 5
    then have "j - (mid + 1) + 1 = len - (mid + 1)" by linarith
    then have "(j - (mid + 1) + 1) mod (len - (mid + 1)) = 0"
      by (simp only: mod_self)
    with 5 mid assms show ?thesis by (simp add: ap turned_upper mid_def [symmetric])
  qed
qed

lemma shift_left_loop_funpow:
  "shift_left_loop i key m len = ((\<lambda>x. shift_left_once x len) ^^ nat (key - i)) m"
proof (induction i key m len rule: shift_left_loop.induct)
  case (1 i key m len)
  define f where "f = (\<lambda>x. shift_left_once x len)"
  show ?case
  proof (cases "i < key")
    case True
    then have n: "nat (key - i) = Suc (nat (key - (i + 1)))" by linarith
    have "shift_left_loop i key m len = shift_left_loop (i + 1) key (f m) len"
      using True by (subst shift_left_loop.simps) (simp add: f_def)
    also have "\<dots> = (f ^^ nat (key - (i + 1))) (f m)"
      using "1.IH" [OF True] by (simp add: f_def)
    also have "\<dots> = (f ^^ nat (key - i)) m"
      unfolding n by (simp add: funpow_swap1)
    finally show ?thesis by (simp add: f_def)
  next
    case False
    then show ?thesis by (subst shift_left_loop.simps) simp
  qed
qed

lemma left_steps_turned:
  assumes "1 \<le> len"
  shows "((\<lambda>x. shift_left_once x len) ^^ k) m j = m (turned len (int k) j)"
proof (induction k arbitrary: j)
  case 0
  show ?case using assms by (simp add: turned_zero)
next
  case (Suc k)
  have "((\<lambda>x. shift_left_once x len) ^^ Suc k) m j =
        ((\<lambda>x. shift_left_once x len) ^^ k) m (turned len 1 j)"
    using assms by (simp add: shift_left_once_turned)
  also have "\<dots> = m (turned len (int k) (turned len 1 j))" by (rule Suc.IH)
  also have "\<dots> = m (turned len (int (Suc k)) j)"
    using assms by (simp add: turned_turned ac_simps)
  finally show ?case .
qed

lemma shift_left_loop_turned:
  "1 \<le> len \<Longrightarrow> 0 \<le> key \<Longrightarrow> shift_left_loop 0 key m len j = m (turned len key j)"
  by (simp add: shift_left_loop_funpow left_steps_turned)

lemma shift_left_once_empty: "shift_left_once m 0 = m"
  by (simp add: shift_left_once_def signed_divide_int_def sweep_up_done)

lemma turned_half_even:
  assumes "2 \<le> len" "even len"
  shows "turned len (len div 2) j = j"
proof -
  from assms(2) obtain h where h: "len = 2 * h" by (auto elim: evenE)
  with assms(1) have hp: "1 \<le> h" by simp
  have a: "(len - 1) div 2 + 1 = h" using h by simp
  have b: "len - h = h" "len div 2 = h" using h by simp_all
  have len: "1 \<le> len" using assms(1) by simp
  consider "j < 0 \<or> len \<le> j" | "0 \<le> j \<and> j < h" | "h \<le> j \<and> j < len" by linarith
  then show ?thesis
  proof cases
    case 1
    with len show ?thesis by (simp add: turned_outside)
  next
    case 2
    then have "turned len (len div 2) j = (j + h) mod h"
      using len by (simp add: turned_lower a b)
    with 2 show ?thesis by simp
  next
    case 3
    then have "turned len (len div 2) j = h + (j - h + h) mod h"
      using len by (simp only: turned_upper a b)
    moreover have "(j - h + h) mod h = j - h"
    proof -
      have "(j - h + h) mod h = (j - h) mod h" by (simp only: mod_add_self2)
      also have "\<dots> = j - h" using 3 h by (intro mod_pos_pos_trivial) linarith+
      finally show ?thesis .
    qed
    ultimately show ?thesis by simp
  qed
qed

lemma half_turn_even:
  assumes "0 \<le> len" and "even len \<or> len = 1"
  shows "shift_left_loop 0 (len div 2) m len = m"
proof -
  have "len = 0 \<or> len = 1 \<or> (2 \<le> len \<and> even len)"
  proof (cases "len = 1")
    case False
    with assms(2) have e: "even len" by simp
    show ?thesis
    proof (cases "len = 0")
      case nz: False
      with assms(1) False have "2 \<le> len" by linarith
      with e show ?thesis by simp
    qed simp
  qed simp
  then consider "len = 0" | "len = 1" | "2 \<le> len \<and> even len" by blast
  then show ?thesis
  proof cases
    case 1
    then show ?thesis by (subst shift_left_loop.simps) simp
  next
    case 2
    then show ?thesis by (subst shift_left_loop.simps) simp
  next
    case 3
    then show ?thesis
      by (intro ext) (simp add: shift_left_loop_turned turned_half_even)
  qed
qed

lemma shift_left_loop_add:
  assumes "0 \<le> k" "0 \<le> h"
  shows "shift_left_loop 0 (k + h) m len = shift_left_loop 0 k (shift_left_loop 0 h m len) len"
proof -
  have "nat (k + h) = nat k + nat h" using assms by (simp add: nat_add_distrib)
  then show ?thesis by (simp add: shift_left_loop_funpow funpow_add)
qed

text \<open>
  Claim C9 as stated fails on \<open>ABC\<close>, of length 3: \<open>3 div 2 = 1\<close> left step leaves
  \<open>BAC\<close>, and encryption with key \<open>1 + 1\<close> gives \<open>24,\<close> where key 1 gives \<open>42,\<close>.
\<close>

theorem odd_length_half_turn:
  "strlen (store_of ''ABC'') = Some 3 \<and>
   segment (shift_left_loop 0 (3 div 2) (store_of ''ABC'') 3) 0 3 = ''BAC'' \<and>
   shift_left_loop 0 (3 div 2) (store_of ''ABC'') 3 \<noteq> store_of ''ABC'' \<and>
   segment (the (snd (the (cipher_encrypt (Some (store_of ''ABC'')) (1 + 3 div 2))))) 0 3 = ''24,'' \<and>
   segment (the (snd (the (cipher_encrypt (Some (store_of ''ABC'')) 1)))) 0 3 = ''42,'' \<and>
   cipher_encrypt (Some (store_of ''ABC'')) (1 + 3 div 2) \<noteq> cipher_encrypt (Some (store_of ''ABC'')) 1"
proof -
  have a: "segment (shift_left_loop 0 (3 div 2) (store_of ''ABC'') 3) 0 3 = ''BAC''"
    by (simp add: run_simps)
  have b: "segment (store_of ''ABC'') 0 3 = ''ABC''"
    by (simp add: run_simps)
  have c: "segment (the (snd (the (cipher_encrypt (Some (store_of ''ABC'')) (1 + 3 div 2))))) 0 3 = ''24,''"
    by (simp add: run_simps)
  have d: "segment (the (snd (the (cipher_encrypt (Some (store_of ''ABC'')) 1)))) 0 3 = ''42,''"
    by (simp add: run_simps)
  have "shift_left_loop 0 (3 div 2) (store_of ''ABC'') 3 \<noteq> store_of ''ABC''"
  proof
    assume "shift_left_loop 0 (3 div 2) (store_of ''ABC'') 3 = store_of ''ABC''"
    then have "segment (shift_left_loop 0 (3 div 2) (store_of ''ABC'') 3) 0 3 =
               segment (store_of ''ABC'') 0 3"
      by (simp only:)
    then show False unfolding a b by simp
  qed
  moreover have "cipher_encrypt (Some (store_of ''ABC'')) (1 + 3 div 2) \<noteq>
                 cipher_encrypt (Some (store_of ''ABC'')) 1"
  proof
    assume "cipher_encrypt (Some (store_of ''ABC'')) (1 + 3 div 2) =
            cipher_encrypt (Some (store_of ''ABC'')) 1"
    then have "segment (the (snd (the (cipher_encrypt (Some (store_of ''ABC'')) (1 + 3 div 2))))) 0 3 =
               segment (the (snd (the (cipher_encrypt (Some (store_of ''ABC'')) 1)))) 0 3"
      by (simp only:)
    then show False unfolding c d by simp
  qed
  moreover have "strlen (store_of ''ABC'') = Some 3"
    by (simp add: run_simps)
  ultimately show ?thesis using a c d by simp
qed

text \<open>
  Claim C9, as the code has it. On a string whose length \<open>len\<close> is even (or is 1, where
  \<open>len div 2 = 0\<close>), \<open>len div 2\<close> left steps give back the store they started from, so
  for every such string of at most 10000 characters and every key \<open>\<ge> 1\<close>,
  \<open>cipher_encrypt\<close> with key \<open>key + len div 2\<close> returns what it returns with \<open>key\<close>.
\<close>

theorem even_length_half_turn:
  "strlen m = Some len \<Longrightarrow> len \<le> 10000 \<Longrightarrow> 1 \<le> key \<Longrightarrow> even len \<or> len = 1 \<Longrightarrow>
     shift_left_loop 0 (len div 2) m len = m \<and>
     cipher_encrypt (Some m) (key + len div 2) = cipher_encrypt (Some m) key"
proof -
  assume len: "strlen m = Some len"
  assume bound: "len \<le> 10000"
  assume key: "1 \<le> key"
  assume parity: "even len \<or> len = 1"
  from len have nn: "0 \<le> len" by (simp add: strlen_iff)
  then have h: "0 \<le> len div 2" by simp
  have restored: "shift_left_loop 0 (len div 2) m len = m"
    using nn parity by (rule half_turn_even)
  have "shift_left_loop 0 (key + len div 2) m len = shift_left_loop 0 key m len"
    using key h by (simp add: shift_left_loop_add restored)
  moreover have "0 < key + len div 2" "0 < key" using key h by linarith+
  ultimately have "cipher_encrypt (Some m) (key + len div 2) = cipher_encrypt (Some m) key"
    using len bound by (simp add: cipher_encrypt_valid)
  with restored show ?thesis by simp
qed

theorem even_length_half_turn_witness:
  "shift_left_loop 0 2 (store_of ''ABCD'') 4 = store_of ''ABCD'' \<and>
   cipher_encrypt (Some (store_of ''ABCD'')) 3 = cipher_encrypt (Some (store_of ''ABCD'')) 1"
proof -
  have "strlen (store_of ''ABCD'') = Some 4"
    by (simp add: strlen_def strlen_from.simps store_of_def)
  from even_length_half_turn [OF this, of 1] show ?thesis by simp
qed

section \<open>What encryption changes\<close>

lemma shifted_has_no_NUL:
  assumes "strlen m = Some len" "0 \<le> key" "0 \<le> j" "j < len"
  shows "shift_left_loop 0 key m len j \<noteq> NUL"
proof -
  have len: "1 \<le> len" using assms by linarith
  have "0 \<le> turned len key j \<and> turned len key j < len"
    using len assms(3,4) by (rule turned_range)
  with assms(1) have "m (turned len key j) \<noteq> NUL" by (simp add: strlen_iff)
  with len assms(2) show ?thesis by (simp add: shift_left_loop_turned)
qed




section \<open>Strings of two or more bytes\<close>

text \<open>On \<open>len \<ge> 2\<close> bytes a right step is the left step turned back.\<close>

lemma shift_right_once_turned:
  assumes "2 \<le> len"
  shows "shift_right_once m len j = m (turned len (- 1) j)"
proof -
  define mid where "mid = (len - 1) div 2"
  have mid: "0 \<le> mid" "mid + 1 \<le> len - 1" using assms by (auto simp: mid_def)
  have len: "1 \<le> len" using assms by simp
  note rc = shift_right_once_cases [OF assms mid_def, where m = m]
  consider "j < 0 \<or> len \<le> j" | "j = 0" | "0 < j \<and> j \<le> mid" | "j = mid + 1"
    | "mid + 1 < j \<and> j \<le> len - 1" by linarith
  then show ?thesis
  proof cases
    case 1
    with len show ?thesis by (simp add: rc(5) turned_outside)
  next
    case 2
    have "(- 1) mod (mid + 1) = mid" using mid by (simp add: zmod_minus1)
    with 2 mid len show ?thesis by (simp add: rc(1) turned_lower mid_def [symmetric])
  next
    case 3
    then have "(j + - 1) mod (mid + 1) = j - 1" by simp
    with 3 len show ?thesis by (simp add: rc(2) turned_lower mid_def [symmetric])
  next
    case 4
    have "(- 1) mod (len - (mid + 1)) = len - (mid + 1) - 1" using mid by (simp add: zmod_minus1)
    with 4 mid len show ?thesis by (simp add: rc(3) turned_upper mid_def [symmetric])
  next
    case 5
    then have "(j - (mid + 1) + - 1) mod (len - (mid + 1)) = j - (mid + 1) - 1" by simp
    with 5 mid len show ?thesis by (simp add: rc(4) turned_upper mid_def [symmetric])
  qed
qed

lemma shift_right_loop_funpow:
  "shift_right_loop i key m len = ((\<lambda>x. shift_right_once x len) ^^ nat (key - i)) m"
proof (induction i key m len rule: shift_right_loop.induct)
  case (1 i key m len)
  define f where "f = (\<lambda>x. shift_right_once x len)"
  show ?case
  proof (cases "i < key")
    case True
    then have n: "nat (key - i) = Suc (nat (key - (i + 1)))" by linarith
    have "shift_right_loop i key m len = shift_right_loop (i + 1) key (f m) len"
      using True by (subst shift_right_loop.simps) (simp add: f_def)
    also have "\<dots> = (f ^^ nat (key - (i + 1))) (f m)"
      using "1.IH" [OF True] by (simp add: f_def)
    also have "\<dots> = (f ^^ nat (key - i)) m"
      unfolding n by (simp add: funpow_swap1)
    finally show ?thesis by (simp add: f_def)
  next
    case False
    then show ?thesis by (subst shift_right_loop.simps) simp
  qed
qed

lemma right_steps_turned:
  assumes "2 \<le> len"
  shows "((\<lambda>x. shift_right_once x len) ^^ k) m j = m (turned len (- int k) j)"
proof (induction k arbitrary: j)
  case 0
  show ?case using assms by (simp add: turned_zero)
next
  case (Suc k)
  have len: "1 \<le> len" using assms by simp
  have "((\<lambda>x. shift_right_once x len) ^^ Suc k) m j =
        ((\<lambda>x. shift_right_once x len) ^^ k) m (turned len (- 1) j)"
    using assms by (simp add: shift_right_once_turned)
  also have "\<dots> = m (turned len (- int k) (turned len (- 1) j))" by (rule Suc.IH)
  also have "\<dots> = m (turned len (- int (Suc k)) j)"
    using len by (simp add: turned_turned ac_simps)
  finally show ?case .
qed

lemma shift_right_loop_turned:
  "2 \<le> len \<Longrightarrow> 0 \<le> key \<Longrightarrow> shift_right_loop 0 key m len j = m (turned len (- key) j)"
  by (simp add: shift_right_loop_funpow right_steps_turned)

text \<open>On a store without a zero byte at offsets \<open>0 .. len - 1\<close> the substitution loops
  run over all of these offsets.\<close>

lemma substitute_forward_string:
  assumes "\<And>k. 0 \<le> k \<Longrightarrow> k < len \<Longrightarrow> x k \<noteq> NUL"
  shows "substitute_forward x len j = (if 0 \<le> j \<and> j < len then scan_forward 0 (x j) else x j)"
proof (cases "0 \<le> j \<and> j < len")
  case True
  then have "\<forall>k. 0 \<le> k \<and> k \<le> j \<longrightarrow> x k \<noteq> NUL" using assms by auto
  with True show ?thesis by (simp add: substitute_forward_apply)
next
  case False
  then show ?thesis by (auto simp: substitute_forward_apply)
qed

lemma substitute_reverse_string:
  assumes "\<And>k. 0 \<le> k \<Longrightarrow> k < len \<Longrightarrow> x k \<noteq> NUL"
  shows "substitute_reverse x len j = (if 0 \<le> j \<and> j < len then scan_reverse 0 (x j) else x j)"
proof (cases "0 \<le> j \<and> j < len")
  case True
  then have "\<forall>k. 0 \<le> k \<and> k \<le> j \<longrightarrow> x k \<noteq> NUL" using assms by auto
  with True show ?thesis by (simp add: substitute_reverse_apply)
next
  case False
  then show ?thesis by (auto simp: substitute_reverse_apply)
qed

text \<open>
  From two bytes on, decryption undoes encryption: for every string of 2 to 10000
  characters and every key \<open>\<ge> 1\<close>, encrypting and then decrypting with the same
  key gives back the store, byte for byte.
\<close>

lemma roundtrip_from_two_bytes:
  assumes len: "strlen m = Some len" and two: "2 \<le> len" and bound: "len \<le> 10000"
    and key: "1 \<le> key"
  shows "encrypt_then_decrypt m key = Some m"
proof -
  have l1: "1 \<le> len" and k0: "0 \<le> key" "0 < key" using two key by simp_all
  from len have zero_at: "m len = NUL" and body: "\<And>k. 0 \<le> k \<Longrightarrow> k < len \<Longrightarrow> m k \<noteq> NUL"
    by (simp_all add: strlen_iff)
  define x where "x = shift_left_loop 0 key m len"
  define e where "e = substitute_forward x len"
  have x: "x j = m (turned len key j)" for j
    using l1 k0 by (simp add: x_def shift_left_loop_turned)
  have xnz: "x k \<noteq> NUL" if "0 \<le> k" "k < len" for k
    unfolding x_def using len k0(1) that by (rule shifted_has_no_NUL)
  have e: "e j = (if 0 \<le> j \<and> j < len then scan_forward 0 (x j) else x j)" for j
    unfolding e_def using xnz by (rule substitute_forward_string)
  have enc: "cipher_encrypt (Some m) key = Some (CIPHER_SUCCESS, Some e)"
    unfolding e_def x_def using k0(2) len bound by (rule cipher_encrypt_valid)
  have elen: "strlen e = Some len"
    unfolding strlen_iff using l1 zero_at xnz by (simp add: e x turned_outside scan_forward_NUL)
  define y where "y = shift_right_loop 0 key e len"
  have y: "y j = (if 0 \<le> j \<and> j < len then scan_forward 0 (m j) else m j)" for j
  proof (cases "0 \<le> j \<and> j < len")
    case True
    then have r: "0 \<le> turned len (- key) j \<and> turned len (- key) j < len"
      using l1 by (intro turned_range) auto
    have "y j = e (turned len (- key) j)"
      using two k0 by (simp add: y_def shift_right_loop_turned)
    also have "\<dots> = scan_forward 0 (m (turned len key (turned len (- key) j)))"
      using r by (simp add: e x)
    also have "\<dots> = scan_forward 0 (m j)"
      using l1 by (simp add: turned_turned turned_zero)
    finally show ?thesis using True by simp
  next
    case False
    then have out: "j < 0 \<or> len \<le> j" by linarith
    then have "y j = e j"
      using two k0 l1 by (simp add: y_def shift_right_loop_turned turned_outside)
    also have "\<dots> = x j" using False by (simp only: e if_False)
    also have "\<dots> = m j" using out l1 by (simp add: x turned_outside)
    finally show ?thesis using False by (simp only: if_False)
  qed
  have ynz: "y k \<noteq> NUL" if "0 \<le> k" "k < len" for k
    using that body by (simp add: y scan_forward_NUL)
  have "substitute_reverse y len j = m j" for j
    using substitute_reverse_string [of len y j, OF ynz]
    by (simp add: y scan_reverse_forward)
  then have d: "substitute_reverse y len = m" by (rule ext)
  have "cipher_decrypt (Some e) key = Some (CIPHER_SUCCESS, Some (substitute_reverse y len))"
    unfolding y_def using k0(2) elen bound by (rule cipher_decrypt_valid)
  with enc d show ?thesis by (simp add: encrypt_then_decrypt_def)
qed

text \<open>
  From two bytes on, the order of the two stages of decryption does not matter:
  \<open>cipher_decrypt\<close>, which shifts and then substitutes, leaves what substituting and
  then shifting leaves.
\<close>

lemma decrypt_order_from_two_bytes:
  assumes len: "strlen m = Some len" and two: "2 \<le> len" and bound: "len \<le> 10000"
    and key: "1 \<le> key"
  shows "cipher_decrypt (Some m) key = Some (CIPHER_SUCCESS, Some (decrypt_in_spec_order m key len))"
proof -
  have l1: "1 \<le> len" and k0: "0 \<le> key" "0 < key" using two key by simp_all
  from len have body: "\<And>k. 0 \<le> k \<Longrightarrow> k < len \<Longrightarrow> m k \<noteq> NUL"
    by (simp add: strlen_iff)
  define y where "y = shift_right_loop 0 key m len"
  have y: "y j = m (turned len (- key) j)" for j
    using two k0 by (simp add: y_def shift_right_loop_turned)
  have ynz: "y k \<noteq> NUL" if "0 \<le> k" "k < len" for k
  proof -
    have "0 \<le> turned len (- key) k \<and> turned len (- key) k < len"
      using l1 that by (rule turned_range)
    then show ?thesis using body by (simp add: y)
  qed
  have "substitute_reverse y len j = decrypt_in_spec_order m key len j" for j
  proof (cases "0 \<le> j \<and> j < len")
    case True
    then have r: "0 \<le> turned len (- key) j \<and> turned len (- key) j < len"
      using l1 by (intro turned_range) auto
    have "decrypt_in_spec_order m key len j = substitute_reverse m len (turned len (- key) j)"
      using two k0 by (simp add: decrypt_in_spec_order_def shift_right_loop_turned)
    also have "\<dots> = scan_reverse 0 (m (turned len (- key) j))"
      using substitute_reverse_string [of len m, OF body] r by simp
    finally show ?thesis
      using substitute_reverse_string [of len y j, OF ynz] True by (simp add: y)
  next
    case False
    then have out: "j < 0 \<or> len \<le> j" by linarith
    have "decrypt_in_spec_order m key len j = substitute_reverse m len j"
      using two k0 l1 out by (simp add: decrypt_in_spec_order_def shift_right_loop_turned turned_outside)
    also have "\<dots> = m j"
      using substitute_reverse_string [of len m j, OF body] False by simp
    finally show ?thesis
      using substitute_reverse_string [of len y j, OF ynz] False l1 out
      by (simp add: y turned_outside)
  qed
  then have "substitute_reverse y len = decrypt_in_spec_order m key len" by (rule ext)
  moreover have "cipher_decrypt (Some m) key = Some (CIPHER_SUCCESS, Some (substitute_reverse y len))"
    unfolding y_def using k0(2) len bound by (rule cipher_decrypt_valid)
  ultimately show ?thesis by simp
qed

section \<open>Texts that encryption cannot leave as they are\<close>

lemma scan_forward_mapped: "scan_forward 0 c \<noteq> c \<longleftrightarrow> c \<in> fst ` set SUBSTITUTION_TABLE"
  using scan_forward_changes [of c] scan_forward_passes [of c] by blast









section \<open>The worked example of the README\<close>

lemma readme_worked_example:
  "segment (shift_left_once (store_of ''ABCDEF'') 6) 0 6 = ''BCAEFD'' \<and>
   cipher_encrypt (Some (store_of ''ABCDEF'')) 1 =
     Some (CIPHER_SUCCESS, Some (store_of ''4,2=10''))"
  by (simp add: run_simps fun_eq_iff)

end
